theory Spec2Isabelle
  imports Main "HOL-Library.Sublist" "HOL-Library.Multiset"
begin

text \<open>
  A model of the SearXNG engine \<open>community_scripts_proxmoxve\<close>: the fetcher that
  normalises the remote catalogue, the cache the catalogue is kept in, the read path of
  \<open>search\<close> with its fallback to a fresh fetch, and the scoring, ranking and formatting
  of results.  The network and the cache are made explicit: the outcome of the request
  is an argument, the cache is passed in and returned.
\<close>

section \<open>Strings\<close>

text \<open>
  A Python \<open>str\<close> is modelled as a HOL \<open>string\<close>, one \<open>char\<close> per code point, which
  covers the code points below 256.  On that range \<open>str.isspace\<close>, \<open>str.lower\<close>,
  \<open>str.strip\<close> and \<open>str.split\<close> behave as defined here.
\<close>

definition is_space :: "char \<Rightarrow> bool" where
  "is_space c =
     (let n = (of_char c :: nat)
      in (9 \<le> n \<and> n \<le> 13) \<or> (28 \<le> n \<and> n \<le> 32) \<or> n = 133 \<or> n = 160)"

definition is_upper :: "char \<Rightarrow> bool" where
  "is_upper c =
     (let n = (of_char c :: nat)
      in (65 \<le> n \<and> n \<le> 90) \<or> (192 \<le> n \<and> n \<le> 222 \<and> n \<noteq> 215))"

definition lower_char :: "char \<Rightarrow> char" where
  "lower_char c = (if is_upper c then char_of (of_char c + (32 :: nat)) else c)"

definition py_lower :: "string \<Rightarrow> string" where
  "py_lower s = map lower_char s"

text \<open>\<open>s.strip()\<close>: leading and trailing whitespace removed.\<close>

definition py_strip :: "string \<Rightarrow> string" where
  "py_strip s = rev (dropWhile is_space (rev (dropWhile is_space s)))"

text \<open>
  \<open>s.split()\<close>: the maximal runs of non-whitespace characters, in order.  The first
  argument is the token being read, reversed.
\<close>

fun split_from :: "string \<Rightarrow> string \<Rightarrow> string list" where
  "split_from cur [] = (if cur = [] then [] else [rev cur])"
| "split_from cur (c # cs) =
     (if is_space c
      then (if cur = [] then split_from [] cs else rev cur # split_from [] cs)
      else split_from (c # cur) cs)"

definition py_split :: "string \<Rightarrow> string list" where
  "py_split s = split_from [] s"

text \<open>\<open>w in s\<close> on strings: \<open>w\<close> occurs in \<open>s\<close> as a contiguous substring.\<close>

definition py_in :: "string \<Rightarrow> string \<Rightarrow> bool" where
  "py_in w s = sublist w s"

text \<open>\<open>s.rsplit(" ", 1)[0]\<close>: the part of \<open>s\<close> before its last space, or \<open>s\<close> itself
  when it has no space.\<close>

definition rsplit_space_head :: "string \<Rightarrow> string" where
  "rsplit_space_head s =
     (if CHR '' '' \<in> set s
      then rev (tl (dropWhile (\<lambda>c. c \<noteq> CHR '' '') (rev s)))
      else s)"

section \<open>Records and results\<close>

record script =
  name :: string
  slug :: string
  description :: string

record main_result =
  url :: string
  title :: string
  content :: string

definition SCRIPT_URL :: "string \<Rightarrow> string" where
  "SCRIPT_URL s = ''https://community-scripts.github.io/ProxmoxVE/scripts?id='' @ s"

definition CACHE_TTL :: nat where
  "CACHE_TTL = 43200"

definition MAX_RESULTS :: nat where
  "MAX_RESULTS = 20"

definition MAX_CACHE_VALUE_LEN :: nat where
  "MAX_CACHE_VALUE_LEN = 10240"

section \<open>Scoring and ranking\<close>

text \<open>
  The loop of \<open>_score_script\<close>, with the lower-cased name and description and the score
  accumulated so far.  A word found in neither field returns 0 at once.
\<close>

fun score_loop :: "string \<Rightarrow> string \<Rightarrow> string list \<Rightarrow> int \<Rightarrow> int" where
  "score_loop name_lower desc_lower [] score = score"
| "score_loop name_lower desc_lower (word # words) score =
     (let in_name = py_in word name_lower;
          in_desc = py_in word desc_lower;
          score1 = (if in_name then score + 10 else score);
          score2 = (if in_desc then score1 + 5 else score1)
      in if \<not> (in_name \<or> in_desc) then 0
         else score_loop name_lower desc_lower words score2)"

text \<open>What one word adds to the score, given the lower-cased name and description.\<close>

definition contrib :: "string \<Rightarrow> string \<Rightarrow> string \<Rightarrow> int" where
  "contrib name_lower desc_lower word =
     (if py_in word name_lower then 10 else 0) + (if py_in word desc_lower then 5 else 0)"

definition score_script :: "script \<Rightarrow> string list \<Rightarrow> int" where
  "score_script s words =
     score_loop (py_lower (name s)) (py_lower (description s)) words 0"

text \<open>The list comprehension of \<open>search\<close>: the records with a positive score, each paired
  with its score, in the order of the input.\<close>

definition scored :: "script list \<Rightarrow> string list \<Rightarrow> (int \<times> script) list" where
  "scored scripts words =
     filter (\<lambda>p. fst p > 0) (map (\<lambda>s. (score_script s words, s)) scripts)"

text \<open>\<open>list.sort(key=..., reverse=True)\<close> is a stable sort into descending key order: it is
  the stable ascending sort on the negated score.\<close>

definition sort_desc :: "(int \<times> script) list \<Rightarrow> (int \<times> script) list" where
  "sort_desc ps = sort_key (\<lambda>p. - fst p) ps"

definition ranked :: "script list \<Rightarrow> string list \<Rightarrow> (int \<times> script) list" where
  "ranked scripts words = take MAX_RESULTS (sort_desc (scored scripts words))"

definition format_content :: "string \<Rightarrow> string" where
  "format_content d =
     (if length d > 300 then rsplit_space_head (take 300 d) @ ''...'' else d)"

definition to_result :: "script \<Rightarrow> main_result" where
  "to_result s =
     \<lparr>url = SCRIPT_URL (slug s), title = name s, content = format_content (description s)\<rparr>"

text \<open>The tail of \<open>search\<close>, from the tokenisation of the query on.\<close>

definition rank_results :: "script list \<Rightarrow> string \<Rightarrow> main_result list" where
  "rank_results scripts query =
     map (\<lambda>p. to_result (snd p)) (ranked scripts (py_split (py_lower query)))"

section \<open>The fetcher\<close>

text \<open>The value \<open>resp.json()\<close> returns.  An object is the association list of its members;
  a member is looked up with \<open>map_of\<close>.\<close>

datatype json =
    JNull
  | JBool bool
  | JNum int  \<comment> \<open>numbers are never inspected\<close>
  | JStr string
  | JArr "json list"
  | JObj "(string \<times> json) list"

text \<open>
  What the request to the categories endpoint comes to: \<open>get\<close> raises \<open>HTTPError\<close> or
  \<open>TimeoutException\<close>, or it returns a response with a status code whose body
  \<open>resp.json()\<close> either decodes or rejects with \<open>ValueError\<close> (\<open>None\<close>).
\<close>

datatype http_outcome =
    RaisesHTTPError
  | RaisesTimeout
  | Response int "json option"

text \<open>The body of the inner loop: one script entry, with the set of slugs seen and the
  list of records collected so far.\<close>

fun ingest_script :: "string set \<times> script list \<Rightarrow> json \<Rightarrow> string set \<times> script list" where
  "ingest_script (seen, scripts) (JObj kv) =
     (case (map_of kv ''name'', map_of kv ''slug'') of
        (Some (JStr name0), Some (JStr slug0)) \<Rightarrow>
          (let name1 = py_strip name0; slug1 = py_strip slug0
           in if name1 = [] \<or> slug1 = [] then (seen, scripts)
              else if map_of kv ''disable'' = Some (JBool True) then (seen, scripts)
              else if slug1 \<in> seen then (seen, scripts)
              else (insert slug1 seen,
                    scripts @ [\<lparr>name = name1, slug = slug1,
                                description = (case map_of kv ''description'' of
                                                 Some (JStr d) \<Rightarrow> take 500 d
                                               | _ \<Rightarrow> [])\<rparr>]))
      | _ \<Rightarrow> (seen, scripts))"
| "ingest_script (seen, scripts) _ = (seen, scripts)"

text \<open>The body of the outer loop: one category.  A category without a \<open>scripts\<close> member
  contributes the empty list.\<close>

fun ingest_category :: "string set \<times> script list \<Rightarrow> json \<Rightarrow> string set \<times> script list" where
  "ingest_category st (JObj kv) =
     (case map_of kv ''scripts'' of
        None \<Rightarrow> st
      | Some (JArr category_scripts) \<Rightarrow> foldl ingest_script st category_scripts
      | Some _ \<Rightarrow> st)"
| "ingest_category st _ = st"

definition fetch_scripts :: "http_outcome \<Rightarrow> script list" where
  "fetch_scripts outcome =
     (case outcome of
        Response status body \<Rightarrow>
          (if status \<noteq> 200 then []
           else (case body of
                   Some (JArr data) \<Rightarrow> snd (foldl ingest_category ({}, []) data)
                 | _ \<Rightarrow> []))
      | _ \<Rightarrow> [])"

subsection \<open>The entries of a payload in scan order\<close>

text \<open>The record a script entry yields when its slug has not been seen: the checks of
  \<open>ingest_script\<close> other than the one on \<open>seen\<close>.\<close>

fun candidate :: "json \<Rightarrow> script option" where
  "candidate (JObj kv) =
     (case (map_of kv ''name'', map_of kv ''slug'') of
        (Some (JStr name0), Some (JStr slug0)) \<Rightarrow>
          (if py_strip name0 = [] \<or> py_strip slug0 = [] then None
           else if map_of kv ''disable'' = Some (JBool True) then None
           else Some \<lparr>name = py_strip name0, slug = py_strip slug0,
                      description = (case map_of kv ''description'' of
                                       Some (JStr d) \<Rightarrow> take 500 d
                                     | _ \<Rightarrow> [])\<rparr>)
      | _ \<Rightarrow> None)"
| "candidate _ = None"

fun category_entries :: "json \<Rightarrow> json list" where
  "category_entries (JObj kv) =
     (case map_of kv ''scripts'' of Some (JArr category_scripts) \<Rightarrow> category_scripts | _ \<Rightarrow> [])"
| "category_entries _ = []"

text \<open>All records the payload offers, categories top to bottom and scripts top to bottom
  within each, duplicates included.\<close>

definition candidates :: "json list \<Rightarrow> script list" where
  "candidates data = concat (map (\<lambda>c. List.map_filter candidate (category_entries c)) data)"

text \<open>The duplicate check alone, on a record.\<close>

definition keep_first :: "string set \<times> script list \<Rightarrow> script \<Rightarrow> string set \<times> script list" where
  "keep_first st r =
     (if slug r \<in> fst st then st else (insert (slug r) (fst st), snd st @ [r]))"



section \<open>The cache\<close>

text \<open>
  \<open>EngineCache\<close> is a key/value store: \<open>set\<close> overwrites the value of a key, \<open>get\<close>
  returns the stored value or \<open>None\<close>.  The values this engine stores are byte strings
  (the compressed records) and one list of slugs.  No time passes within a call, so
  the expiry given to \<open>set\<close> is only recorded, in the log of the operations performed.
\<close>

type_synonym bytes = "char list"

datatype cache_value = Blob bytes | SlugList "string list"

datatype cache_op = Get string | Set string nat

record cache =
  store :: "string \<Rightarrow> cache_value option"
  oplog :: "cache_op list"

definition CACHE_get :: "string \<Rightarrow> cache \<Rightarrow> cache_value option \<times> cache" where
  "CACHE_get key c = (store c key, c\<lparr>oplog := oplog c @ [Get key]\<rparr>)"

definition CACHE_set :: "string \<Rightarrow> cache_value \<Rightarrow> nat \<Rightarrow> cache \<Rightarrow> cache" where
  "CACHE_set key v expire c =
     c\<lparr>store := (store c)(key \<mapsto> v), oplog := oplog c @ [Set key expire]\<rparr>"

definition empty_cache :: cache where
  "empty_cache = \<lparr>store = Map.empty, oplog = []\<rparr>"

text \<open>The exceptions that leave \<open>search\<close>: none of its handlers catches them.\<close>

datatype error = TypeError | EOFError | ValueError | AttributeError | ImportError | IndexError

text \<open>
  \<open>pickle.dumps\<close> followed by \<open>zlib.compress\<close>, and \<open>zlib.decompress\<close> followed by
  \<open>pickle.loads\<close>, are parameters of the model.  \<open>None\<close> from the encoder stands for
  \<open>pickle.PickleError\<close> or \<open>zlib.error\<close>, which the engine catches.  The decoder yields
  the record, or fails with \<open>zlib.error\<close> or \<open>pickle.UnpicklingError\<close>, which the engine
  catches (\<open>DecodeError\<close>), or raises another exception, as \<open>pickle.loads\<close> can on a
  damaged byte string, which the engine does not catch (\<open>Raises\<close>).
\<close>

datatype decode_outcome = Decoded script | DecodeError | Raises error

type_synonym encoder = "script \<Rightarrow> bytes option"
type_synonym decoder = "bytes \<Rightarrow> decode_outcome"

text \<open>
  The loop that stores the records one by one (in \<open>init\<close>, and again in \<open>search\<close>), with
  the slug list built so far.  The first component of the result is \<open>None\<close> when the
  encoder raised; the entries written before that stay in the cache.
\<close>

fun write_entries ::
  "encoder \<Rightarrow> script list \<Rightarrow> string list \<Rightarrow> cache \<Rightarrow> string list option \<times> cache" where
  "write_entries enc [] slugs c = (Some slugs, c)"
| "write_entries enc (s # rest) slugs c =
     (if slug s = [] then write_entries enc rest slugs c
      else case enc s of
             None \<Rightarrow> (None, c)
           | Some compressed_script \<Rightarrow>
               (if length compressed_script > MAX_CACHE_VALUE_LEN
                then write_entries enc rest (slugs @ [slug s]) c
                else write_entries enc rest (slugs @ [slug s])
                       (CACHE_set (''script_'' @ slug s) (Blob compressed_script) CACHE_TTL c)))"

text \<open>The \<open>try\<close> block around that loop: the index is written when the loop completes.
  The flag is \<open>False\<close> when the \<open>except\<close> branch was taken.\<close>

definition cache_scripts :: "encoder \<Rightarrow> script list \<Rightarrow> cache \<Rightarrow> bool \<times> cache" where
  "cache_scripts enc scripts c =
     (case write_entries enc scripts [] c of
        (Some slugs, c1) \<Rightarrow> (True, CACHE_set ''script_slugs_list'' (SlugList slugs) CACHE_TTL c1)
      | (None, c1) \<Rightarrow> (False, c1))"

definition init :: "encoder \<Rightarrow> http_outcome \<Rightarrow> cache \<Rightarrow> bool \<times> cache" where
  "init enc remote c =
     (let scripts = fetch_scripts remote
      in if scripts = [] then (True, c) else cache_scripts enc scripts c)"

text \<open>
  The loop of \<open>search\<close> over the slugs of the index, with the records read so far.  The
  result is \<open>None\<close> when the loop stopped at a missing entry or at one whose decoding
  failed with a caught exception.  A stored value that is not a byte string is falsy
  when it is the empty list, and otherwise makes \<open>zlib.decompress\<close> raise \<open>TypeError\<close>;
  that exception, and any other the decoder raises, leaves \<open>search\<close>.
\<close>

fun read_entries ::
  "decoder \<Rightarrow> string list \<Rightarrow> script list \<Rightarrow> cache \<Rightarrow> error + (script list option \<times> cache)" where
  "read_entries dec [] temp_scripts c = Inr (Some temp_scripts, c)"
| "read_entries dec (sl # rest) temp_scripts c =
     (case CACHE_get (''script_'' @ sl) c of
        (None, c1) \<Rightarrow> Inr (None, c1)
      | (Some (SlugList l), c1) \<Rightarrow> (if l = [] then Inr (None, c1) else Inl TypeError)
      | (Some (Blob cached_script), c1) \<Rightarrow>
          (if cached_script = [] then Inr (None, c1)
           else case dec cached_script of
                  DecodeError \<Rightarrow> Inr (None, c1)
                | Raises e \<Rightarrow> Inl e
                | Decoded s \<Rightarrow> read_entries dec rest (temp_scripts @ [s]) c1))"

text \<open>The first half of \<open>search\<close> after the query check: the records found in the cache,
  or the empty list.\<close>

definition read_cache :: "decoder \<Rightarrow> cache \<Rightarrow> error + (script list \<times> cache)" where
  "read_cache dec c =
     (case CACHE_get ''script_slugs_list'' c of
        (Some (SlugList slugs_list), c1) \<Rightarrow>
          (if slugs_list \<noteq> []
           then (case read_entries dec slugs_list [] c1 of
                   Inl e \<Rightarrow> Inl e
                 | Inr (Some temp_scripts, c2) \<Rightarrow> Inr (temp_scripts, c2)
                 | Inr (None, c2) \<Rightarrow> Inr ([], c2))
           else Inr ([], c1))
      | (_, c1) \<Rightarrow> Inr ([], c1))"

text \<open>The second half: with nothing from the cache the catalogue is fetched, and a non-empty
  catalogue is stored.  \<open>remote\<close> is what the request comes to if it is made.\<close>

definition load_scripts ::
  "encoder \<Rightarrow> decoder \<Rightarrow> http_outcome \<Rightarrow> cache \<Rightarrow> error + (script list \<times> cache)" where
  "load_scripts enc dec remote c =
     (case read_cache dec c of
        Inl e \<Rightarrow> Inl e
      | Inr (scripts, c1) \<Rightarrow>
          (if scripts \<noteq> [] then Inr (scripts, c1)
           else let fetched = fetch_scripts remote
                in if fetched \<noteq> [] then Inr (fetched, snd (cache_scripts enc fetched c1))
                   else Inr ([], c1)))"

definition search ::
  "encoder \<Rightarrow> decoder \<Rightarrow> http_outcome \<Rightarrow> string \<Rightarrow> cache
     \<Rightarrow> error + (main_result list \<times> cache)" where
  "search enc dec remote query c =
     (if query = [] \<or> py_strip query = [] then Inr ([], c)
      else case load_scripts enc dec remote c of
             Inl e \<Rightarrow> Inl e
           | Inr (scripts, c1) \<Rightarrow>
               (if scripts = [] then Inr ([], c1)
                else Inr (rank_results scripts query, c1)))"

subsection \<open>A codec without compression\<close>

text \<open>
  A concrete encoder and decoder to run the model on: the three fields separated by a
  zero byte, stored uncompressed.
\<close>

definition plain_encode :: encoder where
  "plain_encode s = Some (name s @ CHR 0x00 # slug s @ CHR 0x00 # description s)"

definition plain_decode :: decoder where
  "plain_decode b =
     (let n = takeWhile (\<lambda>c. c \<noteq> CHR 0x00) b;
          r = drop (Suc (length n)) b;
          sl = takeWhile (\<lambda>c. c \<noteq> CHR 0x00) r;
          d = drop (Suc (length sl)) r
      in if length n < length b \<and> length sl < length r
         then Decoded \<lparr>name = n, slug = sl, description = d\<rparr>
         else DecodeError)"

section \<open>Reference definitions and example data\<close>

text \<open>
  The content as the specification words it: a description longer than 300 characters
  is cut at the last whitespace character among its first 300 characters and followed
  by the ellipsis.
\<close>

definition truncate_at_whitespace :: "string \<Rightarrow> string" where
  "truncate_at_whitespace d =
     (if length d > 300
      then rev (tl (dropWhile (\<lambda>c. \<not> is_space c) (rev (take 300 d)))) @ ''...''
      else d)"

definition portainer :: script where
  "portainer = \<lparr>name = ''Portainer'', slug = ''portainer'',
                 description = ''A lightweight docker management UI''\<rparr>"

definition portainer_bare :: script where
  "portainer_bare = \<lparr>name = ''Portainer'', slug = ''portainer-bare'',
                      description = ''A management UI''\<rparr>"

definition dockge :: script where
  "dockge = \<lparr>name = ''Dockge'', slug = ''dockge'',
              description = ''Manage docker stacks, like portainer''\<rparr>"

definition docker :: script where
  "docker = \<lparr>name = ''Docker'', slug = ''docker'', description = []\<rparr>"

text \<open>A payload with a non-object script entry, a non-object category, a name to trim,
  a slug that repeats after trimming, and an entry listed again, as it stands, in a
  later category.\<close>

definition example_data :: "json list" where
  "example_data =
     [JObj [(''name'', JStr ''Containers''),
            (''scripts'', JArr
               [JObj [(''name'', JStr '' Portainer ''), (''slug'', JStr ''portainer''),
                      (''description'', JStr ''A lightweight docker management UI'')],
                JNum 3,
                JObj [(''name'', JStr ''Docker''), (''slug'', JStr ''docker''),
                      (''description'', JNull)]])],
      JNull,
      JObj [(''scripts'', JArr
               [JObj [(''name'', JStr ''Other''), (''slug'', JStr ''docker '')],
                JObj [(''name'', JStr '' Portainer ''), (''slug'', JStr ''portainer''),
                      (''description'', JStr ''A lightweight docker management UI'')]])]]"

text \<open>A record that the codec without compression encodes to more than 10240 bytes, and
  the payload that yields it.\<close>

definition big :: script where
  "big = \<lparr>name = replicate 10241 (CHR ''x''), slug = ''big'', description = []\<rparr>"

definition big_data :: "json list" where
  "big_data =
     [JObj [(''scripts'', JArr
               [JObj [(''name'', JStr (replicate 10241 (CHR ''x''))), (''slug'', JStr ''big'')]])]]"

text \<open>A payload with a script whose slug is \<open>slugs_list\<close>: its cache key
  \<open>script_slugs_list\<close> is the key of the index.\<close>

definition colliding_data :: "json list" where
  "colliding_data =
     [JObj [(''scripts'', JArr
               [JObj [(''name'', JStr ''Index''), (''slug'', JStr ''slugs_list'')]])]]"

text \<open>
  A record with a name of 16000 pseudo-random characters out of 64, from a linear
  congruential generator.  Its pickled form is 16061 bytes long and \<open>zlib.compress\<close> at
  level 9 brings it to 12198 bytes; the codec without compression encodes it to more
  than 16000.  Either way it is over \<open>MAX_CACHE_VALUE_LEN\<close>.
\<close>

fun lcg :: "nat \<Rightarrow> nat" where
  "lcg 0 = 12345"
| "lcg (Suc n) = (1103515245 * lcg n + 12345) mod 2147483648"

definition noisy_name :: string where
  "noisy_name = map (\<lambda>i. char_of (48 + (lcg i div 65536) mod 64)) [0..<16000]"

definition noisy :: script where
  "noisy = \<lparr>name = noisy_name, slug = ''noisy'', description = []\<rparr>"

section \<open>Properties of the string operations\<close>

lemma lower_char_idem: "lower_char (lower_char c) = lower_char c"
  by (auto simp: lower_char_def is_upper_def Let_def)

lemma split_from_chars:
  "w \<in> set (split_from cur s) \<Longrightarrow> set w \<subseteq> set cur \<union> set s"
  by (induction cur s rule: split_from.induct) (auto split: if_splits)

lemma py_split_chars: "w \<in> set (py_split s) \<Longrightarrow> set w \<subseteq> set s"
  using split_from_chars[of w "[]" s] by (simp add: py_split_def)

text \<open>The tokens of a lower-cased query are in lower case already.\<close>

lemma token_lower_fixed:
  assumes "w \<in> set (py_split (py_lower q))"
  shows "py_lower w = w"
proof -
  have "set w \<subseteq> lower_char ` set q"
    using py_split_chars[OF assms] by (simp add: py_lower_def)
  then have "\<forall>c\<in>set w. lower_char c = c"
    by (auto simp: lower_char_idem)
  then show ?thesis
    by (simp add: py_lower_def map_idI)
qed

lemma dropWhile_no_lead: "xs = [] \<or> \<not> P (hd xs) \<Longrightarrow> dropWhile P xs = xs"
  by (cases xs) auto

lemma py_strip_ends:
  assumes "py_strip s \<noteq> []"
  shows "\<not> is_space (hd (py_strip s)) \<and> \<not> is_space (last (py_strip s))"
proof -
  define a where "a = dropWhile is_space s"
  define b where "b = dropWhile is_space (rev a)"
  have strip: "py_strip s = rev b"
    by (simp only: py_strip_def a_def b_def)
  have b: "b \<noteq> []"
    using assms unfolding strip by (simp only: rev_is_Nil_conv not_False_eq_True)
  have a: "a \<noteq> []"
  proof
    assume "a = []"
    then have "b = []" by (simp add: b_def)
    with b show False ..
  qed
  have hd_b: "\<not> is_space (hd b)"
    using b unfolding b_def by (rule hd_dropWhile)
  have hd_a: "\<not> is_space (hd a)"
    using a unfolding a_def by (rule hd_dropWhile)
  have "rev a = takeWhile is_space (rev a) @ b"
    unfolding b_def by (rule takeWhile_dropWhile_id[symmetric])
  then have "last (rev a) = last b"
    using b by (metis last_appendR)
  moreover have "last (rev a) = hd a"
    using a by (simp add: last_rev)
  ultimately have "\<not> is_space (last b)"
    using hd_a by simp
  then show ?thesis
    using hd_b b by (simp add: strip hd_rev last_rev)
qed

lemma py_strip_idem: "py_strip (py_strip s) = py_strip s"
proof (cases "py_strip s = []")
  case True
  have "py_strip [] = []" by (simp add: py_strip_def)
  then show ?thesis by (simp only: True)
next
  case False
  from py_strip_ends[OF False]
  have h: "\<not> is_space (hd (py_strip s))" and l: "\<not> is_space (last (py_strip s))"
    by simp_all
  have 1: "dropWhile is_space (py_strip s) = py_strip s"
    using h by (intro dropWhile_no_lead) simp
  have 2: "dropWhile is_space (rev (py_strip s)) = rev (py_strip s)"
    using l False by (intro dropWhile_no_lead) (simp add: hd_rev)
  show ?thesis
    by (subst (1) py_strip_def) (simp only: 1 2 rev_rev_ident)
qed

lemma blank_strip: "\<forall>ch\<in>set q. is_space ch \<Longrightarrow> py_strip q = []"
  by (auto simp: py_strip_def dest: set_dropWhileD)

section \<open>Scoring\<close>

lemma score_loop_all:
  "\<forall>w\<in>set ws. py_in w nl \<or> py_in w dl \<Longrightarrow>
   score_loop nl dl ws acc = acc + sum_list (map (contrib nl dl) ws)"
  by (induction ws arbitrary: acc) (auto simp: contrib_def Let_def)

lemma score_loop_miss:
  "\<exists>w\<in>set ws. \<not> py_in w nl \<and> \<not> py_in w dl \<Longrightarrow> score_loop nl dl ws acc = 0"
  by (induction ws arbitrary: acc) (auto simp: Let_def)

lemma score_script_all:
  assumes "\<forall>w\<in>set ws. py_in w (py_lower (name s)) \<or> py_in w (py_lower (description s))"
  shows "score_script s ws =
           sum_list (map (contrib (py_lower (name s)) (py_lower (description s))) ws)"
  using score_loop_all[OF assms, of 0] by (simp add: score_script_def)

lemma score_script_miss:
  assumes "\<exists>w\<in>set ws. \<not> py_in w (py_lower (name s)) \<and> \<not> py_in w (py_lower (description s))"
  shows "score_script s ws = 0"
  using score_loop_miss[OF assms, of 0] by (simp add: score_script_def)

lemma set_ranked: "set (ranked scripts words) \<subseteq> set (scored scripts words)"
  unfolding ranked_def sort_desc_def
  using set_take_subset[of MAX_RESULTS "sort_key (\<lambda>p. - fst p) (scored scripts words)"]
  by simp

lemma in_scored:
  "(sc, s) \<in> set (scored scripts words) \<longleftrightarrow>
     s \<in> set scripts \<and> sc = score_script s words \<and> 0 < sc"
  by (auto simp: scored_def)

text \<open>
  Claim C4.  With the words that \<open>search\<close> passes to the scorer (the lower-cased query
  split on whitespace, here not empty), the score of a record is the sum over the words
  of 10 when the lower-cased word occurs in the lower-cased name plus 5 when it occurs in
  the lower-cased description, provided every word occurs in one of the two; when some
  word occurs in neither, the score is 0 and the record is not among the ranked records.
\<close>

theorem score_is_conjunctive_sum:
  assumes "words = py_split (py_lower query)" and "words \<noteq> []"
  shows "score_script s words =
           (if \<forall>w\<in>set words. py_in (py_lower w) (py_lower (name s)) \<or>
                              py_in (py_lower w) (py_lower (description s))
            then (\<Sum>w\<leftarrow>words. (if py_in (py_lower w) (py_lower (name s)) then 10 else 0) +
                                (if py_in (py_lower w) (py_lower (description s)) then 5 else 0))
            else 0) \<and>
         ((\<exists>w\<in>set words. \<not> py_in (py_lower w) (py_lower (name s)) \<and>
                           \<not> py_in (py_lower w) (py_lower (description s)))
            \<longrightarrow> score_script s words = 0 \<and> s \<notin> snd ` set (ranked scripts words))"
proof -
  let ?nl = "py_lower (name s)" and ?dl = "py_lower (description s)"
  have fixed: "\<And>w. w \<in> set words \<Longrightarrow> py_lower w = w"
    using assms(1) token_lower_fixed by blast
  have sum_eq: "(\<Sum>w\<leftarrow>words. (if py_in (py_lower w) ?nl then 10 else 0) +
                    (if py_in (py_lower w) ?dl then 5 else (0::int))) =
                sum_list (map (contrib ?nl ?dl) words)"
    by (rule arg_cong[where f = sum_list], rule map_cong) (simp_all add: fixed contrib_def)
  have all_eq: "(\<forall>w\<in>set words. py_in (py_lower w) ?nl \<or> py_in (py_lower w) ?dl) \<longleftrightarrow>
                (\<forall>w\<in>set words. py_in w ?nl \<or> py_in w ?dl)"
    using fixed by simp
  have first: "score_script s words =
           (if \<forall>w\<in>set words. py_in (py_lower w) ?nl \<or> py_in (py_lower w) ?dl
            then (\<Sum>w\<leftarrow>words. (if py_in (py_lower w) ?nl then 10 else 0) +
                                (if py_in (py_lower w) ?dl then 5 else 0))
            else 0)"
  proof (cases "\<forall>w\<in>set words. py_in w ?nl \<or> py_in w ?dl")
    case True
    then show ?thesis
      using score_script_all[OF True] sum_eq all_eq by simp
  next
    case False
    then have z: "score_script s words = 0"
      by (intro score_script_miss) blast
    have nf: "\<not> (\<forall>w\<in>set words. py_in (py_lower w) ?nl \<or> py_in (py_lower w) ?dl)"
      using False all_eq by blast
    show ?thesis
      by (subst if_not_P[OF nf]) (rule z)
  qed
  have second: "s \<notin> snd ` set (ranked scripts words)" if "score_script s words = 0"
  proof
    assume "s \<in> snd ` set (ranked scripts words)"
    then obtain sc where "(sc, s) \<in> set (ranked scripts words)"
      by force
    then have "(sc, s) \<in> set (scored scripts words)"
      using set_ranked by blast
    then have "sc = score_script s words" "0 < sc"
      by (simp_all add: in_scored)
    with that show False
      by simp
  qed
  show ?thesis
    using first second by (auto split: if_splits)
qed

theorem score_is_conjunctive_sum_witness:
  "py_split (py_lower ''Docker  portainer'') = [''docker'', ''portainer''] \<and>
   score_script portainer [''docker'', ''portainer''] = 15 \<and>
   score_script portainer_bare [''docker'', ''portainer''] = 0 \<and>
   portainer_bare \<notin> snd ` set (ranked [portainer, portainer_bare] [''docker'', ''portainer''])"
proof -
  have w: "[''docker'', ''portainer''] = py_split (py_lower ''Docker  portainer'')"
    by code_simp
  have ne: "[''docker'', ''portainer''] \<noteq> ([] :: string list)"
    by simp
  have miss: "\<exists>w\<in>set [''docker'', ''portainer''].
      \<not> py_in (py_lower w) (py_lower (name portainer_bare)) \<and>
      \<not> py_in (py_lower w) (py_lower (description portainer_bare))"
    by code_simp
  have s1: "score_script portainer [''docker'', ''portainer''] = 15"
    by code_simp
  show ?thesis
    using score_is_conjunctive_sum[OF w ne, of portainer_bare "[portainer, portainer_bare]"]
      score_is_conjunctive_sum[OF w ne, of portainer "[]"] miss s1 w
    by simp
qed

lemma contrib_bounds:
  "py_in w nl \<or> py_in w dl \<Longrightarrow> 5 \<le> contrib nl dl w \<and> contrib nl dl w \<le> 15"
  by (auto simp: contrib_def)

lemma sum_list_bounds:
  fixes f :: "'a \<Rightarrow> int"
  assumes "\<forall>x\<in>set xs. lo \<le> f x \<and> f x \<le> hi"
  shows "lo * int (length xs) \<le> sum_list (map f xs) \<and>
         sum_list (map f xs) \<le> hi * int (length xs)"
  using assms by (induction xs) (auto simp: algebra_simps)

text \<open>
  Claim C10.  A record ranked for a list of \<open>k\<close> words carries its own score, and that
  score lies between \<open>5 * k\<close> and \<open>15 * k\<close>.
\<close>

theorem included_score_bounds:
  assumes "(sc, s) \<in> set (ranked scripts words)"
  shows "sc = score_script s words \<and>
         5 * int (length words) \<le> sc \<and> sc \<le> 15 * int (length words)"
proof -
  let ?nl = "py_lower (name s)" and ?dl = "py_lower (description s)"
  have sc: "sc = score_script s words" "0 < sc"
    using assms set_ranked in_scored by blast+
  have found: "\<forall>w\<in>set words. py_in w ?nl \<or> py_in w ?dl"
  proof (rule ccontr)
    assume "\<not> ?thesis"
    then have "score_script s words = 0"
      by (intro score_script_miss) blast
    with sc show False by simp
  qed
  have "sc = sum_list (map (contrib ?nl ?dl) words)"
    using sc(1) score_script_all[OF found] by simp
  moreover have "\<forall>w\<in>set words. 5 \<le> contrib ?nl ?dl w \<and> contrib ?nl ?dl w \<le> 15"
    using found contrib_bounds by blast
  ultimately show ?thesis
    using sum_list_bounds[of words 5 "contrib ?nl ?dl" 15] sc(1) by simp
qed

theorem included_score_bounds_witness:
  "(15, portainer) \<in> set (ranked [portainer_bare, portainer] [''docker'', ''portainer'']) \<and>
   15 = score_script portainer [''docker'', ''portainer''] \<and>
   5 * int (length [''docker'', ''portainer'']) \<le> 15 \<and>
   15 \<le> 15 * int (length [''docker'', ''portainer''])"
proof -
  have m: "(15, portainer) \<in> set (ranked [portainer_bare, portainer] [''docker'', ''portainer''])"
    by code_simp
  show ?thesis
    using m included_score_bounds[OF m] by simp
qed

section \<open>Ranking\<close>

lemma sorted_desc: "sorted (rev (map fst (sort_desc ps)))"
proof -
  have "sorted (map (\<lambda>p. - fst p) (sort_desc ps))"
    by (simp add: sort_desc_def)
  then show ?thesis
    by (simp add: sorted_wrt_rev sorted_wrt_map)
qed

lemma filter_sort_desc:
  "filter (\<lambda>p. fst p = k) (sort_desc ps) = filter (\<lambda>p. fst p = k) ps"
proof -
  have "filter (\<lambda>p. - fst p = - k) (sort_key (\<lambda>p. - fst p) ps) =
        filter (\<lambda>p. - fst p = - k) ps"
    by (rule sort_key_stable)
  then show ?thesis by (simp add: sort_desc_def)
qed

lemma prefix_filter_take: "prefix (filter P (take n xs)) (filter P xs)"
  by (rule filter_mono_prefix) (rule take_is_prefix)

lemma scored_filter:
  "map snd (filter (\<lambda>p. fst p = k) (scored scripts words)) =
   filter (\<lambda>s. score_script s words = k \<and> 0 < k) scripts"
  by (induction scripts) (auto simp: scored_def)

text \<open>
  Claim C5.  The ranked records are in descending order of score; for each score, the
  ranked records with that score are an initial part of the input records with that
  score, in the order of the input; and the ranked records are the first 20 (or all,
  when there are fewer) of an arrangement of all positively scored records in descending
  order.  The results are made from the ranked records one by one, so that at most 20
  are returned.
\<close>

theorem ranked_sorted_stable_capped:
  "sorted (rev (map fst (ranked scripts words))) \<and>
   (\<forall>k. prefix (map snd (filter (\<lambda>p. fst p = k) (ranked scripts words)))
               (filter (\<lambda>s. score_script s words = k) scripts)) \<and>
   (\<exists>rest. mset (ranked scripts words @ rest) = mset (scored scripts words) \<and>
           sorted (rev (map fst (ranked scripts words @ rest)))) \<and>
   length (ranked scripts words) = min 20 (length (scored scripts words)) \<and>
   rank_results scripts query =
     map (\<lambda>p. to_result (snd p)) (ranked scripts (py_split (py_lower query))) \<and>
   length (rank_results scripts query) \<le> 20"
proof -
  let ?all = "sort_desc (scored scripts words)"
  have r: "ranked scripts words = take 20 ?all"
    by (simp add: ranked_def MAX_RESULTS_def)
  have sorted_all: "sorted (rev (map fst ?all))"
    by (rule sorted_desc)
  have 1: "sorted (rev (map fst (ranked scripts words)))"
  proof -
    have "sorted_wrt (\<lambda>p q. fst q \<le> fst p) ?all"
      using sorted_all by (simp add: sorted_wrt_rev sorted_wrt_map)
    then have "sorted_wrt (\<lambda>p q. fst q \<le> fst p) (take 20 ?all)"
      by (rule sorted_wrt_take)
    then show ?thesis
      by (simp add: r sorted_wrt_rev sorted_wrt_map)
  qed
  have 2: "prefix (map snd (filter (\<lambda>p. fst p = k) (ranked scripts words)))
               (filter (\<lambda>s. score_script s words = k) scripts)" for k
  proof -
    have "prefix (filter (\<lambda>p. fst p = k) (ranked scripts words)) (filter (\<lambda>p. fst p = k) ?all)"
      unfolding r by (rule prefix_filter_take)
    then have "prefix (map snd (filter (\<lambda>p. fst p = k) (ranked scripts words)))
                      (map snd (filter (\<lambda>p. fst p = k) (scored scripts words)))"
      by (simp add: filter_sort_desc map_mono_prefix)
    then have p: "prefix (map snd (filter (\<lambda>p. fst p = k) (ranked scripts words)))
                      (filter (\<lambda>s. score_script s words = k \<and> 0 < k) scripts)"
      by (simp add: scored_filter)
    show ?thesis
    proof (cases "0 < k")
      case True
      with p show ?thesis by simp
    next
      case False
      with p show ?thesis by simp
    qed
  qed
  have 3: "\<exists>rest. mset (ranked scripts words @ rest) = mset (scored scripts words) \<and>
           sorted (rev (map fst (ranked scripts words @ rest)))"
  proof (intro exI conjI)
    show "mset (ranked scripts words @ drop 20 ?all) = mset (scored scripts words)"
      unfolding r by (simp add: sort_desc_def)
    show "sorted (rev (map fst (ranked scripts words @ drop 20 ?all)))"
      unfolding r using sorted_all by simp
  qed
  have 4: "length (ranked scripts words) = min 20 (length (scored scripts words))"
    by (simp add: r sort_desc_def min.commute)
  have 5: "length (rank_results scripts query) \<le> 20"
    by (simp add: rank_results_def ranked_def MAX_RESULTS_def)
  have 6: "rank_results scripts query =
     map (\<lambda>p. to_result (snd p)) (ranked scripts (py_split (py_lower query)))"
    by (simp add: rank_results_def)
  from 1 2 3 4 5 6 show ?thesis by blast
qed

theorem ranked_sorted_stable_capped_witness:
  "ranked [portainer, dockge, docker, portainer_bare] [''docker''] =
     [(10, docker), (5, portainer), (5, dockge)] \<and>
   sorted (rev (map fst (ranked [portainer, dockge, docker, portainer_bare] [''docker'']))) \<and>
   prefix (map snd (filter (\<lambda>p. fst p = 5)
             (ranked [portainer, dockge, docker, portainer_bare] [''docker''])))
          (filter (\<lambda>s. score_script s [''docker''] = 5)
             [portainer, dockge, docker, portainer_bare])"
proof -
  have e: "ranked [portainer, dockge, docker, portainer_bare] [''docker''] =
     [(10, docker), (5, portainer), (5, dockge)]"
    by code_simp
  show ?thesis
    using ranked_sorted_stable_capped
      [of "[portainer, dockge, docker, portainer_bare]" "[''docker'']" "[]"] e
    by blast
qed

section \<open>The content of a result\<close>

lemma rsplit_space_head_last:
  assumes "CHR '' '' \<in> set s"
  shows "\<exists>i<length s. s ! i = CHR '' '' \<and>
           (\<forall>j. i < j \<and> j < length s \<longrightarrow> s ! j \<noteq> CHR '' '') \<and>
           rsplit_space_head s = take i s"
proof -
  from split_list_last[OF assms] obtain xs ys where
    s: "s = xs @ CHR '' '' # ys" and ys: "CHR '' '' \<notin> set ys"
    by blast
  have "dropWhile (\<lambda>c. c \<noteq> CHR '' '') (rev ys @ CHR '' '' # rev xs) =
        dropWhile (\<lambda>c. c \<noteq> CHR '' '') (CHR '' '' # rev xs)"
    by (rule dropWhile_append2) (use ys in auto)
  then have "dropWhile (\<lambda>c. c \<noteq> CHR '' '') (rev s) = CHR '' '' # rev xs"
    by (simp add: s)
  then have head: "rsplit_space_head s = xs"
    using assms by (simp add: rsplit_space_head_def)
  have "s ! j \<noteq> CHR '' ''" if "length xs < j" "j < length s" for j
  proof -
    from that have "s ! j = ys ! (j - Suc (length xs))" "j - Suc (length xs) < length ys"
      by (auto simp: s nth_append nth_Cons')
    then show ?thesis
      using ys by (metis nth_mem)
  qed
  then show ?thesis
    using head by (intro exI[of _ "length xs"]) (simp add: s)
qed

lemma format_content_cases:
  "(length d \<le> 300 \<longrightarrow> format_content d = d) \<and>
   (300 < length d \<and> CHR '' '' \<notin> set (take 300 d) \<longrightarrow>
      format_content d = take 300 d @ ''...'') \<and>
   (300 < length d \<and> CHR '' '' \<in> set (take 300 d) \<longrightarrow>
      (\<exists>i<300. d ! i = CHR '' '' \<and>
               (\<forall>j. i < j \<and> j < 300 \<longrightarrow> d ! j \<noteq> CHR '' '') \<and>
               format_content d = take i d @ ''...''))"
proof -
  have 1: "length d \<le> 300 \<longrightarrow> format_content d = d"
    by (simp add: format_content_def)
  have 2: "300 < length d \<and> CHR '' '' \<notin> set (take 300 d) \<longrightarrow>
      format_content d = take 300 d @ ''...''"
    by (simp add: format_content_def rsplit_space_head_def)
  have 3: "300 < length d \<and> CHR '' '' \<in> set (take 300 d) \<longrightarrow>
      (\<exists>i<300. d ! i = CHR '' '' \<and>
               (\<forall>j. i < j \<and> j < 300 \<longrightarrow> d ! j \<noteq> CHR '' '') \<and>
               format_content d = take i d @ ''...'')"
  proof
    assume a: "300 < length d \<and> CHR '' '' \<in> set (take 300 d)"
    then have len: "length (take 300 d) = 300" by simp
    from a rsplit_space_head_last[of "take 300 d"] obtain i where
      i: "i < 300" "take 300 d ! i = CHR '' ''"
         "\<forall>j. i < j \<and> j < 300 \<longrightarrow> take 300 d ! j \<noteq> CHR '' ''"
         "rsplit_space_head (take 300 d) = take i (take 300 d)"
      unfolding len by blast
    have "d ! i = CHR '' ''" using i(1,2) by simp
    moreover have "\<forall>j. i < j \<and> j < 300 \<longrightarrow> d ! j \<noteq> CHR '' ''"
      using i(3) by simp
    moreover have "format_content d = take i d @ ''...''"
      using a i(1,4) by (simp add: format_content_def min_def)
    ultimately show "\<exists>i<300. d ! i = CHR '' '' \<and>
               (\<forall>j. i < j \<and> j < 300 \<longrightarrow> d ! j \<noteq> CHR '' '') \<and>
               format_content d = take i d @ ''...''"
      using i(1) by blast
  qed
  from 1 2 3 show ?thesis by blast
qed

text \<open>
  The content is not cut at every kind of whitespace: in this description of 301
  characters the last whitespace among the first 300 is a tab, after \<open>a b\<close>, and the
  content is cut at the space before it.
\<close>

theorem tab_is_not_a_cut_point:
  "content (to_result \<lparr>name = ''Tabbed'', slug = ''tabbed'',
              description = ''a b'' @ CHR 0x09 # replicate 297 (CHR ''c'')\<rparr>) = ''a...'' \<and>
   truncate_at_whitespace (''a b'' @ CHR 0x09 # replicate 297 (CHR ''c'')) = ''a b...'' \<and>
   is_space (CHR 0x09)"
  by (simp add: to_result_def format_content_def truncate_at_whitespace_def
      rsplit_space_head_def is_space_def dropWhile_append)

text \<open>
  Claim C8, amended.  The content of the result made from a record is the description,
  unchanged, when the description has at most 300 characters.  A longer description is
  cut at the last space character (U+0020) among its first 300 characters, or after
  all 300 when there is no space among them, and followed by the ellipsis \<open>...\<close>.
\<close>

theorem content_cuts_at_last_space:
  "(length (description s) \<le> 300 \<longrightarrow> content (to_result s) = description s) \<and>
   (300 < length (description s) \<and> CHR '' '' \<notin> set (take 300 (description s)) \<longrightarrow>
      content (to_result s) = take 300 (description s) @ ''...'') \<and>
   (300 < length (description s) \<and> CHR '' '' \<in> set (take 300 (description s)) \<longrightarrow>
      (\<exists>i<300. description s ! i = CHR '' '' \<and>
               (\<forall>j. i < j \<and> j < 300 \<longrightarrow> description s ! j \<noteq> CHR '' '') \<and>
               content (to_result s) = take i (description s) @ ''...''))"
  using format_content_cases[of "description s"] by (simp add: to_result_def)

theorem content_cuts_at_last_space_witness:
  "content (to_result portainer) = ''A lightweight docker management UI'' \<and>
   content (to_result \<lparr>name = ''Unbroken'', slug = ''unbroken'',
              description = replicate 301 (CHR ''x'')\<rparr>) =
     replicate 300 (CHR ''x'') @ ''...'' \<and>
   (\<exists>i<300. (''ab cd '' @ replicate 300 (CHR ''x'')) ! i = CHR '' '' \<and>
       content (to_result \<lparr>name = ''Spaced'', slug = ''spaced'',
                  description = ''ab cd '' @ replicate 300 (CHR ''x'')\<rparr>) =
       take i (''ab cd '' @ replicate 300 (CHR ''x'')) @ ''...'')"
  using content_cuts_at_last_space[of portainer]
    content_cuts_at_last_space[of "\<lparr>name = ''Unbroken'', slug = ''unbroken'',
              description = replicate 301 (CHR ''x'')\<rparr>"]
    content_cuts_at_last_space[of "\<lparr>name = ''Spaced'', slug = ''spaced'',
                  description = ''ab cd '' @ replicate 300 (CHR ''x'')\<rparr>"]
  by (auto simp: portainer_def)

section \<open>The fetcher\<close>

lemma candidate_valid:
  assumes "candidate j = Some r"
  shows "name r \<noteq> [] \<and> py_strip (name r) = name r \<and>
         slug r \<noteq> [] \<and> py_strip (slug r) = slug r \<and>
         length (description r) \<le> 500"
  using assms
  by (cases j) (auto simp: py_strip_idem split: option.splits json.splits if_splits)

text \<open>The loops of the fetcher run the duplicate check over the entries in scan order.\<close>

lemma ingest_script_candidate:
  "ingest_script st j = (case candidate j of None \<Rightarrow> st | Some r \<Rightarrow> keep_first st r)"
  by (cases st; cases j) (auto simp: keep_first_def Let_def split: option.splits json.splits)

lemma foldl_ingest_script:
  "foldl ingest_script st js = foldl keep_first st (List.map_filter candidate js)"
  by (induction js arbitrary: st)
    (auto simp: ingest_script_candidate map_filter_simps split: option.splits)

lemma ingest_category_candidates:
  "ingest_category st c = foldl keep_first st (List.map_filter candidate (category_entries c))"
  by (cases c) (auto simp: foldl_ingest_script map_filter_simps split: option.splits json.splits)

lemma foldl_ingest_category:
  "foldl ingest_category st data = foldl keep_first st (candidates data)"
  by (induction data arbitrary: st) (auto simp: candidates_def ingest_category_candidates)

lemma fetch_scripts_payload:
  "fetch_scripts (Response 200 (Some (JArr data))) =
     snd (foldl keep_first ({}, []) (candidates data))"
  by (simp add: fetch_scripts_def foldl_ingest_category)

lemma fetch_scripts_elsewhere:
  "\<nexists>data. outcome = Response 200 (Some (JArr data)) \<Longrightarrow> fetch_scripts outcome = []"
  by (auto simp: fetch_scripts_def split: http_outcome.splits option.splits json.splits)

lemma find_app:
  "find P (xs @ ys) = (case find P xs of None \<Rightarrow> find P ys | Some x \<Rightarrow> Some x)"
  by (induction xs) auto

lemma keep_first_invariant:
  "fst (foldl keep_first ({}, []) rs) = slug ` set (snd (foldl keep_first ({}, []) rs)) \<and>
   distinct (map slug (snd (foldl keep_first ({}, []) rs))) \<and>
   subseq (snd (foldl keep_first ({}, []) rs)) rs \<and>
   (\<forall>s. find (\<lambda>r. slug r = s) (snd (foldl keep_first ({}, []) rs)) =
        find (\<lambda>r. slug r = s) rs)"
proof (induction rs rule: rev_induct)
  case Nil
  then show ?case by simp
next
  case (snoc r rs)
  let ?st = "foldl keep_first ({}, []) rs"
  from snoc have seen: "fst ?st = slug ` set (snd ?st)"
    and dist: "distinct (map slug (snd ?st))"
    and sub: "subseq (snd ?st) rs"
    and fnd: "\<And>s. find (\<lambda>r. slug r = s) (snd ?st) = find (\<lambda>r. slug r = s) rs"
    by simp_all
  show ?case
  proof (cases "slug r \<in> fst ?st")
    case True
    then have eq: "foldl keep_first ({}, []) (rs @ [r]) = ?st"
      by (simp add: keep_first_def)
    have "find (\<lambda>x. slug x = s) (snd ?st) = find (\<lambda>x. slug x = s) (rs @ [r])" for s
    proof (cases "s = slug r")
      case True
      with \<open>slug r \<in> fst ?st\<close> seen obtain x where "x \<in> set (snd ?st)" "slug x = s"
        by auto
      then have "find (\<lambda>x. slug x = s) (snd ?st) \<noteq> None"
        by (auto simp: find_None_iff)
      then show ?thesis
        using fnd[of s] by (auto simp: find_app split: option.splits)
    next
      case False
      then show ?thesis
        using fnd[of s] by (auto simp: find_app split: option.splits)
    qed
    moreover have "subseq (snd ?st) (rs @ [r])"
      using sub by (rule subseq_rev_drop_many)
    ultimately show ?thesis
      unfolding eq using seen dist by simp
  next
    case False
    then have eq: "foldl keep_first ({}, []) (rs @ [r]) =
        (insert (slug r) (fst ?st), snd ?st @ [r])"
      by (simp add: keep_first_def)
    have "find (\<lambda>x. slug x = s) (snd ?st @ [r]) = find (\<lambda>x. slug x = s) (rs @ [r])" for s
      using fnd[of s] by (simp add: find_app)
    moreover have "subseq (snd ?st @ [r]) (rs @ [r])"
      using sub by (simp add: list_emb_append_mono)
    moreover have "distinct (map slug (snd ?st @ [r]))"
      using dist False seen by simp
    ultimately show ?thesis
      unfolding eq using seen by simp
  qed
qed

lemma keep_first_seen: "fst (foldl keep_first ({}, []) rs) = slug ` set rs"
proof (induction rs rule: rev_induct)
  case Nil
  then show ?case by simp
next
  case (snoc r rs)
  then show ?case
    by (cases "slug r \<in> slug ` set rs") (simp_all add: keep_first_def insert_absorb)
qed

text \<open>The duplicate check keeps exactly the records whose slug no earlier record has, each
  at its place.\<close>

lemma keep_first_positions:
  "snd (foldl keep_first ({}, []) rs) =
     map (\<lambda>i. rs ! i)
       (filter (\<lambda>i. slug (rs ! i) \<notin> slug ` set (take i rs)) [0..<length rs])"
proof (induction rs rule: rev_induct)
  case Nil
  then show ?case by simp
next
  case (snoc r rs)
  let ?keep = "\<lambda>xs i. slug (xs ! i) \<notin> slug ` set (take i xs)"
  let ?n = "length rs"
  have same: "filter (?keep (rs @ [r])) [0..<?n] = filter (?keep rs) [0..<?n]"
    by (rule filter_cong) (simp_all add: nth_append)
  have nth_same: "map (\<lambda>i. (rs @ [r]) ! i) (filter (?keep rs) [0..<?n]) =
                  map (\<lambda>i. rs ! i) (filter (?keep rs) [0..<?n])"
    by (rule map_cong) (simp_all add: nth_append)
  have upt: "[0..<length (rs @ [r])] = [0..<?n] @ [?n]"
    by simp
  have step: "snd (foldl keep_first ({}, []) (rs @ [r])) =
      (if slug r \<in> slug ` set rs then snd (foldl keep_first ({}, []) rs)
       else snd (foldl keep_first ({}, []) rs) @ [r])"
    using keep_first_seen[of rs] by (simp add: keep_first_def)
  show ?case
  proof (cases "slug r \<in> slug ` set rs")
    case True
    then have "filter (?keep (rs @ [r])) [0..<length (rs @ [r])] =
               filter (?keep rs) [0..<?n]"
      unfolding upt filter_append same by simp
    then have "map (\<lambda>i. (rs @ [r]) ! i) (filter (?keep (rs @ [r])) [0..<length (rs @ [r])]) =
               map (\<lambda>i. rs ! i) (filter (?keep rs) [0..<?n])"
      by (simp only: nth_same)
    moreover have "snd (foldl keep_first ({}, []) (rs @ [r])) = snd (foldl keep_first ({}, []) rs)"
      using True by (simp only: step if_True)
    ultimately show ?thesis
      using snoc.IH by (simp only:)
  next
    case False
    then have "filter (?keep (rs @ [r])) [0..<length (rs @ [r])] =
               filter (?keep rs) [0..<?n] @ [?n]"
      unfolding upt filter_append same by simp
    then have "map (\<lambda>i. (rs @ [r]) ! i) (filter (?keep (rs @ [r])) [0..<length (rs @ [r])]) =
               map (\<lambda>i. rs ! i) (filter (?keep rs) [0..<?n]) @ [r]"
      by (simp only: map_append nth_same) simp
    moreover have "snd (foldl keep_first ({}, []) (rs @ [r])) =
                   snd (foldl keep_first ({}, []) rs) @ [r]"
      using False by (simp only: step if_False)
    ultimately show ?thesis
      using snoc.IH by (simp only:)
  qed
qed

lemma fetch_scripts_distinct: "distinct (map slug (fetch_scripts outcome))"
proof (cases "\<exists>data. outcome = Response 200 (Some (JArr data))")
  case True
  then obtain data where "outcome = Response 200 (Some (JArr data))" by blast
  then show ?thesis
    using keep_first_invariant[of "candidates data"] by (simp add: fetch_scripts_payload)
next
  case False
  then show ?thesis by (simp add: fetch_scripts_elsewhere)
qed

lemma fetch_scripts_subseq:
  "subseq (fetch_scripts (Response 200 (Some (JArr data)))) (candidates data)"
  using keep_first_invariant[of "candidates data"] by (simp add: fetch_scripts_payload)

lemma fetch_scripts_valid:
  assumes "r \<in> set (fetch_scripts outcome)"
  shows "name r \<noteq> [] \<and> py_strip (name r) = name r \<and>
         slug r \<noteq> [] \<and> py_strip (slug r) = slug r \<and>
         length (description r) \<le> 500"
proof (cases "\<exists>data. outcome = Response 200 (Some (JArr data))")
  case True
  then obtain data where data: "outcome = Response 200 (Some (JArr data))" by blast
  have "r \<in> set (candidates data)"
    using fetch_scripts_subseq[of data] assms unfolding data by (auto elim: list_emb_set)
  then obtain j where "candidate j = Some r"
    by (auto simp: candidates_def map_filter_def)
  then show ?thesis by (rule candidate_valid)
next
  case False
  with assms show ?thesis by (simp add: fetch_scripts_elsewhere)
qed

lemma fetch_example:
  "fetch_scripts (Response 200 (Some (JArr example_data))) = [portainer, docker]"
  by (simp add: fetch_scripts_def example_data_def py_strip_def is_space_def Let_def
      portainer_def docker_def)

lemma candidates_example:
  "candidates example_data =
     [portainer, docker, \<lparr>name = ''Other'', slug = ''docker'', description = []\<rparr>,
      portainer]"
  by (simp add: candidates_def example_data_def py_strip_def is_space_def Let_def
      portainer_def docker_def map_filter_simps)

lemma positions_example:
  "map (\<lambda>i. candidates example_data ! i)
     (filter (\<lambda>i. slug (candidates example_data ! i) \<notin>
                   slug ` set (take i (candidates example_data)))
        [0..<length (candidates example_data)]) = [portainer, docker]"
  unfolding candidates_example
  by (simp add: portainer_def docker_def upt_rec)

text \<open>
  Claim C7.  Every record the fetcher returns has a name and a slug that are not empty
  and are their own trimmed form, and a description of at most 500 characters; the slugs
  of the records are pairwise distinct; and for a payload that is a list, the records
  are, in this order, the entries accepted in scan order (categories top to bottom,
  scripts top to bottom within each) at the positions where the slug is met for the
  first time: the entry at position \<open>i\<close> is kept exactly when no entry before it has its
  slug.  So the records are a subsequence of the accepted entries, and each slug stands
  for the first accepted entry that has it.
\<close>

theorem snapshot_normalised_first_wins:
  "(\<forall>r\<in>set (fetch_scripts outcome).
       name r \<noteq> [] \<and> py_strip (name r) = name r \<and>
       slug r \<noteq> [] \<and> py_strip (slug r) = slug r \<and>
       length (description r) \<le> 500) \<and>
   distinct (map slug (fetch_scripts outcome)) \<and>
   (outcome = Response 200 (Some (JArr data)) \<longrightarrow>
      fetch_scripts outcome =
        map (\<lambda>i. candidates data ! i)
          (filter (\<lambda>i. slug (candidates data ! i) \<notin> slug ` set (take i (candidates data)))
             [0..<length (candidates data)]) \<and>
      subseq (fetch_scripts outcome) (candidates data) \<and>
      (\<forall>s. find (\<lambda>r. slug r = s) (fetch_scripts outcome) =
           find (\<lambda>r. slug r = s) (candidates data)))"
proof (intro conjI ballI impI allI)
  fix r assume r: "r \<in> set (fetch_scripts outcome)"
  from fetch_scripts_valid[OF r]
  show "name r \<noteq> []" "py_strip (name r) = name r" "slug r \<noteq> []"
    "py_strip (slug r) = slug r" "length (description r) \<le> 500"
    by simp_all
next
  show "distinct (map slug (fetch_scripts outcome))"
    by (rule fetch_scripts_distinct)
next
  assume "outcome = Response 200 (Some (JArr data))"
  then show "fetch_scripts outcome =
        map (\<lambda>i. candidates data ! i)
          (filter (\<lambda>i. slug (candidates data ! i) \<notin> slug ` set (take i (candidates data)))
             [0..<length (candidates data)])"
    using keep_first_positions[of "candidates data"] by (simp add: fetch_scripts_payload)
next
  assume "outcome = Response 200 (Some (JArr data))"
  then show "subseq (fetch_scripts outcome) (candidates data)"
    using fetch_scripts_subseq by simp
next
  fix s assume "outcome = Response 200 (Some (JArr data))"
  then show "find (\<lambda>r. slug r = s) (fetch_scripts outcome) =
             find (\<lambda>r. slug r = s) (candidates data)"
    using keep_first_invariant[of "candidates data"] by (simp add: fetch_scripts_payload)
qed

theorem snapshot_normalised_first_wins_witness:
  "fetch_scripts (Response 200 (Some (JArr example_data))) = [portainer, docker] \<and>
   candidates example_data =
     [portainer, docker, \<lparr>name = ''Other'', slug = ''docker'', description = []\<rparr>,
      portainer] \<and>
   fetch_scripts (Response 200 (Some (JArr example_data))) =
     map (\<lambda>i. candidates example_data ! i)
       (filter (\<lambda>i. slug (candidates example_data ! i) \<notin>
                     slug ` set (take i (candidates example_data)))
          [0..<length (candidates example_data)]) \<and>
   map (\<lambda>i. candidates example_data ! i)
     (filter (\<lambda>i. slug (candidates example_data ! i) \<notin>
                   slug ` set (take i (candidates example_data)))
        [0..<length (candidates example_data)]) = [portainer, docker] \<and>
   py_strip (name portainer) = name portainer \<and>
   length (description portainer) \<le> 500 \<and>
   distinct (map slug (fetch_scripts (Response 200 (Some (JArr example_data))))) \<and>
   subseq (fetch_scripts (Response 200 (Some (JArr example_data)))) (candidates example_data) \<and>
   find (\<lambda>r. slug r = ''docker'') (fetch_scripts (Response 200 (Some (JArr example_data)))) =
     find (\<lambda>r. slug r = ''docker'') (candidates example_data)"
proof -
  note t = snapshot_normalised_first_wins
    [of "Response 200 (Some (JArr example_data))" example_data]
  have p: "portainer \<in> set (fetch_scripts (Response 200 (Some (JArr example_data))))"
    by (simp add: fetch_example)
  from t p have "py_strip (name portainer) = name portainer"
    and "length (description portainer) \<le> 500"
    by blast+
  moreover from t have "distinct (map slug (fetch_scripts (Response 200 (Some (JArr example_data)))))"
    by blast
  moreover from t have "fetch_scripts (Response 200 (Some (JArr example_data))) =
     map (\<lambda>i. candidates example_data ! i)
       (filter (\<lambda>i. slug (candidates example_data ! i) \<notin>
                     slug ` set (take i (candidates example_data)))
          [0..<length (candidates example_data)])"
    and "subseq (fetch_scripts (Response 200 (Some (JArr example_data)))) (candidates example_data)"
    and "find (\<lambda>r. slug r = ''docker'') (fetch_scripts (Response 200 (Some (JArr example_data)))) =
     find (\<lambda>r. slug r = ''docker'') (candidates example_data)"
    by blast+
  ultimately show ?thesis
    using fetch_example candidates_example positions_example by blast
qed






section \<open>The cache\<close>

lemma CACHE_get_simps [simp]:
  "fst (CACHE_get k c) = store c k" "store (snd (CACHE_get k c)) = store c"
  by (simp_all add: CACHE_get_def)

lemma store_CACHE_set [simp]:
  "store (CACHE_set k v e c) = (store c)(k \<mapsto> v)"
  by (simp add: CACHE_set_def)

subsection \<open>Writing\<close>

text \<open>When the encoder never raises, the slug list grows by every slug that is not empty,
  whatever the size of the encoded record.\<close>

lemma write_entries_slugs:
  "\<forall>x\<in>set scripts. enc x \<noteq> None \<Longrightarrow>
   fst (write_entries enc scripts slugs c) =
     Some (slugs @ filter (\<lambda>s. s \<noteq> []) (map slug scripts))"
  by (induction scripts arbitrary: slugs c) (auto split: option.splits)

lemma write_entries_untouched:
  "\<forall>x\<in>set scripts. k = ''script_'' @ slug x \<longrightarrow>
      slug x = [] \<or> enc x = None \<or> (\<exists>b. enc x = Some b \<and> MAX_CACHE_VALUE_LEN < length b) \<Longrightarrow>
   store (snd (write_entries enc scripts slugs c)) k = store c k"
proof (induction scripts arbitrary: slugs c)
  case Nil
  then show ?case by simp
next
  case (Cons s rest)
  then have rest: "\<And>slugs c. store (snd (write_entries enc rest slugs c)) k = store c k"
    by simp
  show ?case
  proof (cases "slug s = [] \<or> enc s = None \<or>
                (\<exists>b. enc s = Some b \<and> MAX_CACHE_VALUE_LEN < length b)")
    case True
    then show ?thesis
      using rest by (auto split: option.splits)
  next
    case False
    then have "k \<noteq> ''script_'' @ slug s"
      using Cons.prems by auto
    then show ?thesis
      using rest False by (auto split: option.splits)
  qed
qed

lemma write_entries_written:
  assumes "distinct (map slug scripts)" and "x \<in> set scripts" and "slug x \<noteq> []"
    and "enc x = Some b" and "length b \<le> MAX_CACHE_VALUE_LEN"
    and "\<forall>y\<in>set scripts. enc y \<noteq> None"
  shows "store (snd (write_entries enc scripts slugs c)) (''script_'' @ slug x) = Some (Blob b)"
  using assms
proof (induction scripts arbitrary: slugs c)
  case Nil
  then show ?case by simp
next
  case (Cons s rest)
  show ?case
  proof (cases "x = s")
    case True
    have "\<forall>y\<in>set rest. ''script_'' @ slug x \<noteq> ''script_'' @ slug y"
      using Cons.prems(1) True by auto
    then have keep: "\<And>slugs c.
        store (snd (write_entries enc rest slugs c)) (''script_'' @ slug x)
        = store c (''script_'' @ slug x)"
      by (intro write_entries_untouched) blast
    show ?thesis
      using True Cons.prems(3,4,5) keep by simp
  next
    case False
    then have "x \<in> set rest" using Cons.prems(2) by simp
    then have "\<And>slugs c.
        store (snd (write_entries enc rest slugs c)) (''script_'' @ slug x) = Some (Blob b)"
      using Cons.IH Cons.prems by simp
    then show ?thesis
      using Cons.prems(6) by (auto split: option.splits)
  qed
qed

lemma cache_scripts_ok:
  assumes "\<forall>x\<in>set scripts. enc x \<noteq> None"
  shows "cache_scripts enc scripts c =
           (True, CACHE_set ''script_slugs_list''
                    (SlugList (filter (\<lambda>s. s \<noteq> []) (map slug scripts))) CACHE_TTL
                    (snd (write_entries enc scripts [] c)))"
  using write_entries_slugs[OF assms, of "[]" c]
  by (cases "write_entries enc scripts [] c") (simp add: cache_scripts_def)

subsection \<open>Reading\<close>

lemma read_entries_all:
  "\<forall>x\<in>set rs. \<exists>b. store c (''script_'' @ slug x) = Some (Blob b) \<and> b \<noteq> [] \<and> dec b = Decoded x \<Longrightarrow>
   \<exists>c'. read_entries dec (map slug rs) temp c = Inr (Some (temp @ rs), c') \<and> store c' = store c"
proof (induction rs arbitrary: temp c)
  case Nil
  then show ?case by simp
next
  case (Cons r rs)
  from Cons.prems obtain b where
    b: "store c (''script_'' @ slug r) = Some (Blob b)" "b \<noteq> []" "dec b = Decoded r"
    by auto
  let ?c1 = "snd (CACHE_get (''script_'' @ slug r) c)"
  have "\<forall>x\<in>set rs. \<exists>b. store ?c1 (''script_'' @ slug x) = Some (Blob b) \<and> b \<noteq> [] \<and>
          dec b = Decoded x"
    using Cons.prems by simp
  from Cons.IH[OF this, of "temp @ [r]"] obtain c' where
    c': "read_entries dec (map slug rs) (temp @ [r]) ?c1 = Inr (Some (temp @ r # rs), c')"
      "store c' = store c"
    by auto
  have "read_entries dec (map slug (r # rs)) temp c =
        read_entries dec (map slug rs) (temp @ [r]) ?c1"
    using b by (simp add: CACHE_get_def)
  with c' show ?case
    by auto
qed

text \<open>The loop stops at the first slug whose entry is missing, empty or fails to decode
  with a caught exception, when the entries before it decode.\<close>

lemma read_entries_stops:
  assumes "\<forall>x\<in>set pre. \<exists>b s. store c (''script_'' @ x) = Some (Blob b) \<and> b \<noteq> [] \<and>
             dec b = Decoded s"
    and "store c (''script_'' @ bad) = None \<or>
         store c (''script_'' @ bad) = Some (Blob []) \<or>
         store c (''script_'' @ bad) = Some (SlugList []) \<or>
         (\<exists>b. store c (''script_'' @ bad) = Some (Blob b) \<and> dec b = DecodeError)"
  shows "\<exists>c'. read_entries dec (pre @ bad # post) temp c = Inr (None, c') \<and> store c' = store c"
  using assms
proof (induction pre arbitrary: temp c)
  case Nil
  then show ?case
    by (auto simp: CACHE_get_def)
next
  case (Cons x pre)
  from Cons.prems(1) obtain b s where
    b: "store c (''script_'' @ x) = Some (Blob b)" "b \<noteq> []" "dec b = Decoded s"
    by auto
  let ?c1 = "snd (CACHE_get (''script_'' @ x) c)"
  have st: "store ?c1 = store c" by simp
  have pre: "\<forall>x\<in>set pre. \<exists>b s. store ?c1 (''script_'' @ x) = Some (Blob b) \<and> b \<noteq> [] \<and>
             dec b = Decoded s"
    using Cons.prems(1) by (simp only: st) simp
  have bad: "store ?c1 (''script_'' @ bad) = None \<or>
         store ?c1 (''script_'' @ bad) = Some (Blob []) \<or>
         store ?c1 (''script_'' @ bad) = Some (SlugList []) \<or>
         (\<exists>b. store ?c1 (''script_'' @ bad) = Some (Blob b) \<and> dec b = DecodeError)"
    using Cons.prems(2) by (simp only: st)
  from Cons.IH[OF pre bad, of "temp @ [s]"] obtain c' where
    c': "read_entries dec (pre @ bad # post) (temp @ [s]) ?c1 = Inr (None, c')"
      "store c' = store c"
    by (auto simp only: st)
  have "read_entries dec ((x # pre) @ bad # post) temp c =
        read_entries dec (pre @ bad # post) (temp @ [s]) ?c1"
    using b by (simp add: CACHE_get_def)
  with c' show ?case
    by auto
qed

text \<open>Then the records served are those of a fresh fetch, never the part read so far.\<close>

lemma refetch_on_broken_entry:
  assumes "store c ''script_slugs_list'' = Some (SlugList (pre @ bad # post))"
    and "\<forall>x\<in>set pre. \<exists>b s. store c (''script_'' @ x) = Some (Blob b) \<and> b \<noteq> [] \<and>
           dec b = Decoded s"
    and "store c (''script_'' @ bad) = None \<or>
         store c (''script_'' @ bad) = Some (Blob []) \<or>
         store c (''script_'' @ bad) = Some (SlugList []) \<or>
         (\<exists>b. store c (''script_'' @ bad) = Some (Blob b) \<and> dec b = DecodeError)"
  shows "\<exists>c'. load_scripts enc dec remote c = Inr (fetch_scripts remote, c')"
proof -
  let ?c1 = "snd (CACHE_get ''script_slugs_list'' c)"
  have st: "store ?c1 = store c" by simp
  have pre: "\<forall>x\<in>set pre. \<exists>b s. store ?c1 (''script_'' @ x) = Some (Blob b) \<and> b \<noteq> [] \<and>
             dec b = Decoded s"
    using assms(2) by (simp only: st)
  have bad: "store ?c1 (''script_'' @ bad) = None \<or>
         store ?c1 (''script_'' @ bad) = Some (Blob []) \<or>
         store ?c1 (''script_'' @ bad) = Some (SlugList []) \<or>
         (\<exists>b. store ?c1 (''script_'' @ bad) = Some (Blob b) \<and> dec b = DecodeError)"
    using assms(3) by (simp only: st)
  have "\<exists>c'. read_entries dec (pre @ bad # post) [] ?c1 = Inr (None, c') \<and> store c' = store ?c1"
    using pre bad by (rule read_entries_stops)
  then obtain c2 where "read_entries dec (pre @ bad # post) [] ?c1 = Inr (None, c2)"
    by blast
  then have "read_cache dec c = Inr ([], c2)"
    using assms(1) by (simp add: read_cache_def CACHE_get_def)
  then show ?thesis
    by (simp add: load_scripts_def Let_def)
qed

lemma read_cache_no_index:
  assumes "store c ''script_slugs_list'' = None"
  shows "read_cache dec c = Inr ([], snd (CACHE_get ''script_slugs_list'' c))"
  using assms by (simp add: read_cache_def CACHE_get_def)

lemma fetch_big: "fetch_scripts (Response 200 (Some (JArr big_data))) = [big]"
  by (simp add: fetch_scripts_def big_data_def py_strip_def is_space_def Let_def big_def)

subsection \<open>Writing a snapshot and reading it back\<close>

lemma noisy_name_length: "length noisy_name = 16000"
  by (simp add: noisy_name_def)

text \<open>
  A record whose encoding exceeds \<open>MAX_CACHE_VALUE_LEN\<close> is not stored, so a snapshot that
  holds one is not read back.  The record \<open>noisy\<close> is such a record, under the codec
  without compression as under \<open>zlib\<close>: writing \<open>[noisy]\<close> to the empty cache succeeds and
  stores the index alone, and the read that follows finds no entry for the slug and
  serves what the fetcher returns then (nothing, when the request times out), not
  \<open>[noisy]\<close>.
\<close>

theorem oversized_record_breaks_round_trip:
  "(\<exists>b. plain_encode noisy = Some b \<and> MAX_CACHE_VALUE_LEN < length b) \<and>
   fst (cache_scripts plain_encode [noisy] empty_cache) = True \<and>
   store (snd (cache_scripts plain_encode [noisy] empty_cache)) ''script_slugs_list'' =
     Some (SlugList [''noisy'']) \<and>
   store (snd (cache_scripts plain_encode [noisy] empty_cache)) ''script_noisy'' = None \<and>
   map_sum id fst (load_scripts plain_encode plain_decode RaisesTimeout
                     (snd (cache_scripts plain_encode [noisy] empty_cache))) = Inr []"
  by (simp add: noisy_def noisy_name_length plain_encode_def Let_def cache_scripts_def
      MAX_CACHE_VALUE_LEN_def load_scripts_def read_cache_def CACHE_get_def CACHE_set_def
      empty_cache_def fetch_scripts_def)

text \<open>
  Claim C3, amended.  Take a snapshot that is not empty, whose slugs are distinct, not
  empty and not \<open>slugs_list\<close>, and whose records each encode to a non-empty byte string
  of at most \<open>MAX_CACHE_VALUE_LEN\<close> bytes that decodes to the record.  Writing it to any
  cache succeeds and sets the index to the slugs of the snapshot in order, and
  \<open>load_scripts\<close> on the cache written returns the snapshot itself, in that order,
  whatever the remote would answer, leaving the stored values as they are.
\<close>

theorem cache_round_trip:
  assumes "scripts \<noteq> []" and "distinct (map slug scripts)"
    and "\<forall>r\<in>set scripts. slug r \<noteq> [] \<and> slug r \<noteq> ''slugs_list'' \<and>
           (\<exists>b. enc r = Some b \<and> b \<noteq> [] \<and> length b \<le> MAX_CACHE_VALUE_LEN \<and> dec b = Decoded r)"
  shows "\<exists>c1 c2. cache_scripts enc scripts c = (True, c1) \<and>
           store c1 ''script_slugs_list'' = Some (SlugList (map slug scripts)) \<and>
           load_scripts enc dec remote c1 = Inr (scripts, c2) \<and>
           store c2 = store c1"
proof -
  let ?w = "snd (write_entries enc scripts [] c)"
  let ?c1 = "CACHE_set ''script_slugs_list'' (SlugList (map slug scripts)) CACHE_TTL ?w"
  have enc_ok: "\<forall>x\<in>set scripts. enc x \<noteq> None"
    using assms(3) by auto
  have nonempty: "filter (\<lambda>s. s \<noteq> []) (map slug scripts) = map slug scripts"
    using assms(3) by (auto simp: filter_id_conv)
  have written: "cache_scripts enc scripts c = (True, ?c1)"
    using cache_scripts_ok[OF enc_ok, of c] by (simp add: nonempty)
  have index: "store ?c1 ''script_slugs_list'' = Some (SlugList (map slug scripts))"
    by simp
  have entries: "\<forall>x\<in>set scripts. \<exists>b. store ?c1 (''script_'' @ slug x) = Some (Blob b) \<and>
      b \<noteq> [] \<and> dec b = Decoded x"
  proof
    fix x assume x: "x \<in> set scripts"
    with assms(3) obtain b where
      b: "enc x = Some b" "b \<noteq> []" "length b \<le> MAX_CACHE_VALUE_LEN" "dec b = Decoded x"
      and sl: "slug x \<noteq> []" "slug x \<noteq> ''slugs_list''"
      by blast
    have "store ?w (''script_'' @ slug x) = Some (Blob b)"
      using write_entries_written[OF assms(2) x sl(1) b(1) b(3) enc_ok] .
    moreover have "''script_'' @ slug x \<noteq> ''script_slugs_list''"
      using sl(2) by simp
    ultimately show "\<exists>b. store ?c1 (''script_'' @ slug x) = Some (Blob b) \<and> b \<noteq> [] \<and>
        dec b = Decoded x"
      using b by simp
  qed
  let ?g = "snd (CACHE_get ''script_slugs_list'' ?c1)"
  have "\<forall>x\<in>set scripts. \<exists>b. store ?g (''script_'' @ slug x) = Some (Blob b) \<and> b \<noteq> [] \<and>
      dec b = Decoded x"
    using entries by simp
  from read_entries_all[OF this, of "[]"] obtain c2 where
    c2: "read_entries dec (map slug scripts) [] ?g = Inr (Some scripts, c2)"
      "store c2 = store ?c1"
    by auto
  have "read_cache dec ?c1 = Inr (scripts, c2)"
    using c2(1) assms(1) by (simp add: read_cache_def CACHE_get_def CACHE_set_def)
  then have "load_scripts enc dec remote ?c1 = Inr (scripts, c2)"
    using assms(1) by (simp add: load_scripts_def)
  with written index c2(2) show ?thesis
    by blast
qed

theorem cache_round_trip_witness:
  "plain_decode (the (plain_encode portainer)) = Decoded portainer \<and>
   (\<exists>c1 c2. cache_scripts plain_encode [portainer, docker] empty_cache = (True, c1) \<and>
      store c1 ''script_slugs_list'' = Some (SlugList [''portainer'', ''docker'']) \<and>
      load_scripts plain_encode plain_decode RaisesTimeout c1 = Inr ([portainer, docker], c2) \<and>
      store c2 = store c1)"
proof -
  have h1: "[portainer, docker] \<noteq> []" by simp
  have h2: "distinct (map slug [portainer, docker])"
    by (simp add: portainer_def docker_def)
  have h3: "\<forall>r\<in>set [portainer, docker]. slug r \<noteq> [] \<and> slug r \<noteq> ''slugs_list'' \<and>
      (\<exists>b. plain_encode r = Some b \<and> b \<noteq> [] \<and> length b \<le> MAX_CACHE_VALUE_LEN \<and>
           plain_decode b = Decoded r)"
    by (simp add: portainer_def docker_def plain_encode_def plain_decode_def
        MAX_CACHE_VALUE_LEN_def Let_def)
  have d: "plain_decode (the (plain_encode portainer)) = Decoded portainer"
    by (simp add: portainer_def plain_encode_def plain_decode_def Let_def)
  show ?thesis
    using d cache_round_trip[OF h1 h2 h3, of empty_cache RaisesTimeout]
    by (simp add: portainer_def docker_def)
qed

subsection \<open>The index after a fetch\<close>

text \<open>
  Claim C1.  The claim is that the index written after a fetch holds no slug of a record
  too large to store.  The code does otherwise: when the cache has no index, the
  catalogue is fetched, and one of its records encodes to more than
  \<open>MAX_CACHE_VALUE_LEN\<close> bytes (the encoder raising for no record), \<open>load_scripts\<close>
  writes an index that lists the slug of every fetched record, that one included, while
  the value stored under that record's key is what it was before.  So does \<open>init\<close>.
\<close>

theorem oversized_slug_listed_in_index:
  assumes "store c ''script_slugs_list'' = None"
    and "r \<in> set (fetch_scripts remote)"
    and "enc r = Some b" and "MAX_CACHE_VALUE_LEN < length b"
    and "\<forall>x\<in>set (fetch_scripts remote). enc x \<noteq> None"
    and "slug r \<noteq> ''slugs_list''"
  shows "(\<exists>c'. load_scripts enc dec remote c = Inr (fetch_scripts remote, c') \<and>
           store c' ''script_slugs_list'' = Some (SlugList (map slug (fetch_scripts remote))) \<and>
           slug r \<in> set (map slug (fetch_scripts remote)) \<and>
           store c' (''script_'' @ slug r) = store c (''script_'' @ slug r)) \<and>
         (\<exists>c'. init enc remote c = (True, c') \<and>
           store c' ''script_slugs_list'' = Some (SlugList (map slug (fetch_scripts remote))) \<and>
           store c' (''script_'' @ slug r) = store c (''script_'' @ slug r))"
proof -
  let ?fetched = "fetch_scripts remote"
  let ?c1 = "snd (CACHE_get ''script_slugs_list'' c)"
  let ?w = "snd (write_entries enc ?fetched [] ?c1)"
  let ?c' = "CACHE_set ''script_slugs_list'' (SlugList (map slug ?fetched)) CACHE_TTL ?w"
  have ne: "?fetched \<noteq> []"
    using assms(2) by auto
  have "\<forall>x\<in>set ?fetched. slug x \<noteq> []"
    using fetch_scripts_valid[of _ remote] by blast
  then have nonempty: "filter (\<lambda>s. s \<noteq> []) (map slug ?fetched) = map slug ?fetched"
    by (auto simp: filter_id_conv)
  have "cache_scripts enc ?fetched ?c1 = (True, ?c')"
    using cache_scripts_ok[OF assms(5), of ?c1] by (simp add: nonempty)
  then have load: "load_scripts enc dec remote c = Inr (?fetched, ?c')"
    using ne read_cache_no_index[OF assms(1), of dec] by (simp add: load_scripts_def Let_def)
  have only_r: "slug x = [] \<or> enc x = None \<or>
      (\<exists>b. enc x = Some b \<and> MAX_CACHE_VALUE_LEN < length b)"
    if "x \<in> set ?fetched" "''script_'' @ slug r = ''script_'' @ slug x" for x
  proof -
    from that(2) have "slug x = slug r" by simp
    with that(1) assms(2) fetch_scripts_distinct[of remote] have "x = r"
      by (meson distinct_map inj_onD)
    then show ?thesis
      using assms(3,4) by blast
  qed
  have "store ?w (''script_'' @ slug r) = store ?c1 (''script_'' @ slug r)"
    by (rule write_entries_untouched) (use only_r in blast)
  moreover have "''script_'' @ slug r \<noteq> ''script_slugs_list''"
    using assms(6) by simp
  ultimately have entry: "store ?c' (''script_'' @ slug r) = store c (''script_'' @ slug r)"
    by simp
  have "store ?c' ''script_slugs_list'' = Some (SlugList (map slug ?fetched))"
    by simp
  with load entry assms(2) have search_path:
    "\<exists>c'. load_scripts enc dec remote c = Inr (?fetched, c') \<and>
       store c' ''script_slugs_list'' = Some (SlugList (map slug ?fetched)) \<and>
       slug r \<in> set (map slug ?fetched) \<and>
       store c' (''script_'' @ slug r) = store c (''script_'' @ slug r)"
    by (intro exI[of _ ?c']) simp
  let ?wi = "snd (write_entries enc ?fetched [] c)"
  let ?ci = "CACHE_set ''script_slugs_list'' (SlugList (map slug ?fetched)) CACHE_TTL ?wi"
  have "init enc remote c = (True, ?ci)"
    using ne cache_scripts_ok[OF assms(5), of c] by (simp add: init_def Let_def nonempty)
  moreover have "store ?wi (''script_'' @ slug r) = store c (''script_'' @ slug r)"
    by (rule write_entries_untouched) (use only_r in blast)
  ultimately have init_path:
    "\<exists>c'. init enc remote c = (True, c') \<and>
       store c' ''script_slugs_list'' = Some (SlugList (map slug ?fetched)) \<and>
       store c' (''script_'' @ slug r) = store c (''script_'' @ slug r)"
    using \<open>''script_'' @ slug r \<noteq> ''script_slugs_list''\<close> by (intro exI[of _ ?ci]) simp
  from search_path init_path show ?thesis
    by blast
qed

theorem oversized_slug_listed_in_index_witness:
  "store empty_cache ''script_slugs_list'' = None \<and>
   fetch_scripts (Response 200 (Some (JArr big_data))) = [big] \<and>
   (\<exists>b. plain_encode big = Some b \<and> MAX_CACHE_VALUE_LEN < length b) \<and>
   (\<exists>c'. load_scripts plain_encode plain_decode (Response 200 (Some (JArr big_data))) empty_cache
            = Inr ([big], c') \<and>
         store c' ''script_slugs_list'' = Some (SlugList [''big'']) \<and>
         store c' ''script_big'' = None) \<and>
   (\<exists>c'. init plain_encode (Response 200 (Some (JArr big_data))) empty_cache = (True, c') \<and>
         store c' ''script_slugs_list'' = Some (SlugList [''big'']) \<and>
         store c' ''script_big'' = None)"
proof -
  let ?remote = "Response 200 (Some (JArr big_data))"
  let ?b = "name big @ CHR 0x00 # slug big @ CHR 0x00 # description big"
  have h1: "store empty_cache ''script_slugs_list'' = None"
    by (simp add: empty_cache_def)
  have h2: "big \<in> set (fetch_scripts ?remote)"
    by (simp add: fetch_big)
  have h3: "plain_encode big = Some ?b"
    by (simp add: plain_encode_def)
  have h4: "MAX_CACHE_VALUE_LEN < length ?b"
    by (simp add: big_def MAX_CACHE_VALUE_LEN_def)
  have h5: "\<forall>x\<in>set (fetch_scripts ?remote). plain_encode x \<noteq> None"
    by (simp add: plain_encode_def)
  have h6: "slug big \<noteq> ''slugs_list''"
    by (simp add: big_def)
  show ?thesis
    using oversized_slug_listed_in_index[OF h1 h2 h3 h4 h5 h6, of plain_decode] h1 h3 h4 fetch_big
    by (simp add: big_def empty_cache_def)
qed

subsection \<open>A slug that collides with the key of the index\<close>

text \<open>
  Claim C2.  The claim is that a read which meets a missing or undecodable entry serves
  the records of a fresh fetch (\<open>refetch_on_broken_entry\<close> above, for an entry that is
  absent, empty or fails to decode with an exception the engine catches).  It fails for
  an entry that is not a byte string: a catalogue
  with a script of slug \<open>slugs_list\<close> makes \<open>init\<close> store the index under that script's
  own key, and every \<open>search\<close> on that cache then raises \<open>TypeError\<close>, for every codec and
  whatever the remote would answer.
\<close>

theorem index_slug_collision_raises:
  "fetch_scripts (Response 200 (Some (JArr colliding_data))) =
     [\<lparr>name = ''Index'', slug = ''slugs_list'', description = []\<rparr>] \<and>
   store (snd (init plain_encode (Response 200 (Some (JArr colliding_data))) empty_cache))
     ''script_slugs_list'' = Some (SlugList [''slugs_list'']) \<and>
   search enc dec remote ''docker''
     (snd (init plain_encode (Response 200 (Some (JArr colliding_data))) empty_cache)) =
     Inl TypeError"
  by (simp add: search_def load_scripts_def read_cache_def init_def cache_scripts_def
      fetch_scripts_def colliding_data_def py_strip_def is_space_def Let_def plain_encode_def
      MAX_CACHE_VALUE_LEN_def CACHE_get_def CACHE_set_def empty_cache_def)

subsection \<open>A blank query\<close>

text \<open>
  Claim C9.  For a query with no character other than whitespace (the empty query
  included), \<open>search\<close> returns no result and the cache it was given: the stored values
  and the log of cache operations are unchanged, so the cache was neither read nor
  written, and the result is the same whatever the cache holds.
\<close>

theorem blank_query_leaves_cache_alone:
  assumes "\<forall>ch\<in>set query. is_space ch"
  shows "search enc dec remote query c = Inr ([], c)"
  using blank_strip[OF assms] by (simp add: search_def)

theorem blank_query_leaves_cache_alone_witness:
  "is_space (CHR 0x09) \<and>
   search plain_encode plain_decode RaisesTimeout ('' '' @ [CHR 0x09]) empty_cache =
     Inr ([], empty_cache) \<and>
   search plain_encode plain_decode RaisesTimeout [] empty_cache = Inr ([], empty_cache)"
  using blank_query_leaves_cache_alone
      [of "'' '' @ [CHR 0x09]" plain_encode plain_decode RaisesTimeout empty_cache]
    blank_query_leaves_cache_alone[of "[]" plain_encode plain_decode RaisesTimeout empty_cache]
  by (simp add: is_space_def)

end
